theory Spec2Isabelle
  imports Complex_Main "HOL-Library.Word"
begin

unbundle bit_operations_syntax

section \<open>MP3 frame counting: the embedding of mp3Parser.ts\<close>

text \<open>
  A Node.js \<open>Buffer\<close> is a sequence of bytes. Positions and sizes are natural numbers,
  the frame count is an integer (the source starts it at 0 and only increments it, which
  is proved below rather than built into the type).
\<close>

type_synonym byte = "8 word"
type_synonym buffer = "byte list"

datatype error = BufferOverflow

record FrameHeader =
  version :: nat
  layer :: nat
  bitrateIndex :: nat
  sampleRateIndex :: nat
  padding :: bool
  frameSize :: nat

subsection \<open>Lookup tables\<close>

definition BITRATE_TABLE :: "nat \<rightharpoonup> nat" where
  "BITRATE_TABLE = map_of
     [(1, 32), (2, 40), (3, 48), (4, 56), (5, 64), (6, 80), (7, 96),
      (8, 112), (9, 128), (10, 160), (11, 192), (12, 224), (13, 256), (14, 320)]"

definition SAMPLE_RATE_TABLE :: "nat \<rightharpoonup> nat" where
  "SAMPLE_RATE_TABLE = map_of [(0, 44100), (1, 48000), (2, 32000)]"

subsection \<open>readByte\<close>

definition readByte :: "buffer \<Rightarrow> nat \<Rightarrow> error + byte" where
  "readByte buffer position =
     (if position \<ge> length buffer then Inl BufferOverflow
      else Inr (buffer ! position))"

subsection \<open>parseFrameHeader\<close>

text \<open>
  The bit operations of the source act on bytes (numbers in 0..255), where JavaScript's
  32-bit \<open>>>\<close> and \<open>&\<close> agree with the operations on 8-bit words. The operands of
  \<open>Math.floor((144 * bitrate * 1000) / sampleRate)\<close> are whole numbers below \<open>2 ^ 26\<close>,
  so the quotient is written as the integer division here; the theorem on the frame size
  relates it to the floor of the real quotient.
\<close>

definition parseFrameHeader :: "buffer \<Rightarrow> nat \<Rightarrow> error + FrameHeader option" where
  "parseFrameHeader buffer position =
     (if position + 4 > length buffer then Inr None
      else case readByte buffer position of Inl e \<Rightarrow> Inl e | Inr byte1 \<Rightarrow>
           case readByte buffer (position + 1) of Inl e \<Rightarrow> Inl e | Inr byte2 \<Rightarrow>
      if byte1 \<noteq> 0xFF \<or> (byte2 AND 0xE0) \<noteq> 0xE0 then Inr None
      else let version = unat ((drop_bit 3 byte2) AND 0x03) in
      if version \<noteq> 3 then Inr None
      else let layer = unat ((drop_bit 1 byte2) AND 0x03) in
      if layer \<noteq> 1 then Inr None
      else case readByte buffer (position + 2) of Inl e \<Rightarrow> Inl e | Inr byte3 \<Rightarrow>
      let bitrateIndex = unat ((drop_bit 4 byte3) AND 0x0F) in
      if bitrateIndex = 0 \<or> bitrateIndex = 15 then Inr None
      else let sampleRateIndex = unat ((drop_bit 2 byte3) AND 0x03) in
      if sampleRateIndex = 3 then Inr None
      else let padding = (((drop_bit 1 byte3) AND 0x01) = 1) in
      case BITRATE_TABLE bitrateIndex of None \<Rightarrow> Inr None | Some bitrate \<Rightarrow>
      case SAMPLE_RATE_TABLE sampleRateIndex of None \<Rightarrow> Inr None | Some sampleRate \<Rightarrow>
      if bitrate = 0 \<or> sampleRate = 0 then Inr None
      else let frameSize = (144 * bitrate * 1000) div sampleRate + (if padding then 1 else 0) in
      Inr (Some \<lparr>version = version, layer = layer, bitrateIndex = bitrateIndex,
                 sampleRateIndex = sampleRateIndex, padding = padding,
                 frameSize = frameSize\<rparr>))"

subsection \<open>The ID3v2 tag skip (countMp3Frames, lines 132 to 146)\<close>

text \<open>
  \<open>buffer.toString('ascii', start, end)\<close> decodes the bytes from \<open>start\<close> up to
  \<open>end\<close>; Node's ascii decoding clears the highest bit of each byte first.
\<close>

definition toString_ascii :: "buffer \<Rightarrow> nat \<Rightarrow> nat \<Rightarrow> string" where
  "toString_ascii buffer start end =
     map (\<lambda>b. char_of (unat (b AND 0x7F))) (take (end - start) (drop start buffer))"

text \<open>
  JavaScript's \<open><<\<close> and \<open>|\<close> work on 32-bit integers and give a signed result.
\<close>

definition id3Size :: "byte \<Rightarrow> byte \<Rightarrow> byte \<Rightarrow> byte \<Rightarrow> int" where
  "id3Size sizeByte6 sizeByte7 sizeByte8 sizeByte9 =
     sint ((push_bit 21 (ucast sizeByte6 :: 32 word)) OR (push_bit 14 (ucast sizeByte7))
           OR (push_bit 7 (ucast sizeByte8)) OR (ucast sizeByte9))"

definition skipId3 :: "buffer \<Rightarrow> error + int" where
  "skipId3 buffer =
     (if length buffer \<ge> 10 then
        if toString_ascii buffer 0 3 = ''ID3'' then
          case readByte buffer 6 of Inl e \<Rightarrow> Inl e | Inr sizeByte6 \<Rightarrow>
          case readByte buffer 7 of Inl e \<Rightarrow> Inl e | Inr sizeByte7 \<Rightarrow>
          case readByte buffer 8 of Inl e \<Rightarrow> Inl e | Inr sizeByte8 \<Rightarrow>
          case readByte buffer 9 of Inl e \<Rightarrow> Inl e | Inr sizeByte9 \<Rightarrow>
          Inr (10 + id3Size sizeByte6 sizeByte7 sizeByte8 sizeByte9)
        else Inr 0
      else Inr 0)"

subsection \<open>The scan loop (countMp3Frames, lines 148 to 202)\<close>

text \<open>
  The state of the loop is the cursor \<open>position\<close> and \<open>frameCount\<close>. Two history
  fields record what the loop did and are never read by it: \<open>examined\<close> lists the
  positions handed to \<open>parseFrameHeader\<close>, \<open>counted\<close> the cursor positions at which
  \<open>frameCount\<close> was incremented.
\<close>

record scan_state =
  position :: nat
  frameCount :: int
  examined :: "nat list"
  counted :: "nat list"

datatype control = Continue scan_state | Break scan_state

definition loop_cond :: "buffer \<Rightarrow> scan_state \<Rightarrow> bool" where
  "loop_cond buffer s \<longleftrightarrow> int (position s) < int (length buffer) - 4"

definition note_examined :: "nat \<Rightarrow> scan_state \<Rightarrow> scan_state" where
  "note_examined p s = s\<lparr>examined := examined s @ [p]\<rparr>"

definition count_frame :: "scan_state \<Rightarrow> scan_state" where
  "count_frame s = s\<lparr>frameCount := frameCount s + 1, counted := counted s @ [position s]\<rparr>"

definition advance :: "scan_state \<Rightarrow> scan_state" where
  "advance s = s\<lparr>position := position s + 1\<rparr>"

text \<open>
  One run of the loop body. An error raised inside the \<open>try\<close> block is caught by the
  \<open>catch\<close> clause, which advances the cursor by one; what the body changed before the
  error stays changed.
\<close>

definition scan_body :: "buffer \<Rightarrow> scan_state \<Rightarrow> control" where
  "scan_body buffer s0 =
     (let s = note_examined (position s0) s0 in
      case parseFrameHeader buffer (position s) of
        Inl e \<Rightarrow> Continue (advance s)
      | Inr None \<Rightarrow> Continue (advance s)
      | Inr (Some header) \<Rightarrow>
          if frameSize header < 4 \<or> frameSize header > 1440 then Continue (advance s)
          else if position s + frameSize header > length buffer then
            (if position s + 4 \<le> length buffer then Break (count_frame s) else Break s)
          else
            let s1 = count_frame s;
                nextFramePos = position s1 + frameSize header in
            if int nextFramePos \<ge> int (length buffer) - 4 then Break s1
            else
              let s2 = note_examined nextFramePos s1 in
              case parseFrameHeader buffer nextFramePos of
                Inl e \<Rightarrow> Continue (advance s2)
              | Inr nextHeader \<Rightarrow>
                  if (case nextHeader of None \<Rightarrow> False
                      | Some h \<Rightarrow> frameSize h \<ge> 4 \<and> frameSize h \<le> 1440)
                  then Continue (s2\<lparr>position := nextFramePos\<rparr>)
                  else Continue (s2\<lparr>position := nextFramePos\<rparr>))"

lemma parseFrameHeader_no_error: "parseFrameHeader buffer p \<noteq> Inl e"
  by (auto simp: parseFrameHeader_def readByte_def Let_def split: option.splits)

lemma parseFrameHeader_Some_bounds:
  assumes "parseFrameHeader buffer p = Inr (Some h)"
  shows "p + 4 \<le> length buffer"
  using assms by (auto simp: parseFrameHeader_def split: if_splits)

lemma scan_body_Continue_position:
  assumes "scan_body buffer s = Continue s'"
  shows "position s < position s'"
  using assms
  by (auto simp: scan_body_def Let_def note_examined_def count_frame_def advance_def
      split: sum.splits option.splits if_splits)

function scan_loop :: "buffer \<Rightarrow> scan_state \<Rightarrow> scan_state" where
  "scan_loop buffer s =
     (if loop_cond buffer s then
        (case scan_body buffer s of
           Continue s' \<Rightarrow> scan_loop buffer s'
         | Break s' \<Rightarrow> s')
      else s)"
  by pat_completeness auto
termination
proof (relation "measure (\<lambda>(buffer, s). length buffer - position s)")
  show "wf (measure (\<lambda>(buffer, s). length buffer - position s))" by simp
next
  fix buffer :: buffer and s s' :: scan_state
  assume c: "loop_cond buffer s" and b: "scan_body buffer s = Continue s'"
  from b have "position s < position s'" by (rule scan_body_Continue_position)
  moreover from c have "position s < length buffer" by (simp add: loop_cond_def)
  ultimately show "((buffer, s'), (buffer, s)) \<in> measure (\<lambda>(buffer, s). length buffer - position s)"
    by simp
qed

definition result_state :: "control \<Rightarrow> scan_state" where
  "result_state c = (case c of Continue s \<Rightarrow> s | Break s \<Rightarrow> s)"

definition initial_state :: "nat \<Rightarrow> scan_state" where
  "initial_state p = \<lparr>position = p, frameCount = 0, examined = [], counted = []\<rparr>"

text \<open>
  \<open>scan\<close> is the body of \<open>countMp3Frames\<close> up to its \<open>return\<close>: the tag skip, then
  the loop, giving the state the loop ends in. An error of the tag skip is outside the
  \<open>try\<close> block and would reach the caller.
\<close>

definition scan :: "buffer \<Rightarrow> error + scan_state" where
  "scan buffer =
     (case skipId3 buffer of
        Inl e \<Rightarrow> Inl e
      | Inr start \<Rightarrow> Inr (scan_loop buffer (initial_state (nat start))))"

definition countMp3Frames :: "buffer \<Rightarrow> error + int" where
  "countMp3Frames buffer =
     (case scan buffer of Inl e \<Rightarrow> Inl e | Inr s \<Rightarrow> Inr (frameCount s))"

subsection \<open>The states an invocation passes through\<close>

text \<open>
  \<open>scan_states\<close> lists the state at every test of the loop condition and the state the
  loop is left with; \<open>run_states\<close> puts the state before the tag skip in front.
\<close>

function scan_states :: "buffer \<Rightarrow> scan_state \<Rightarrow> scan_state list" where
  "scan_states buffer s =
     s # (if loop_cond buffer s then
            (case scan_body buffer s of
               Continue s' \<Rightarrow> scan_states buffer s'
             | Break s' \<Rightarrow> [s'])
          else [])"
  by pat_completeness auto
termination
proof (relation "measure (\<lambda>(buffer, s). length buffer - position s)")
  show "wf (measure (\<lambda>(buffer, s). length buffer - position s))" by simp
next
  fix buffer :: buffer and s s' :: scan_state
  assume c: "loop_cond buffer s" and b: "scan_body buffer s = Continue s'"
  from b have "position s < position s'" by (rule scan_body_Continue_position)
  moreover from c have "position s < length buffer" by (simp add: loop_cond_def)
  ultimately show "((buffer, s'), (buffer, s)) \<in> measure (\<lambda>(buffer, s). length buffer - position s)"
    by simp
qed

definition run_states :: "buffer \<Rightarrow> scan_state list" where
  "run_states buffer =
     initial_state 0 #
     (case skipId3 buffer of
        Inl e \<Rightarrow> []
      | Inr start \<Rightarrow> scan_states buffer (initial_state (nat start)))"

subsection \<open>The scan without the lookahead verification\<close>

text \<open>
  The variant the equivalence claim compares with: the loop body with lines 180 to 186
  (the \<open>parseFrameHeader\<close> call at the expected next position and the branch on its
  result) removed, everything else as in \<open>scan_body\<close>.
\<close>

definition scan_body_nolookahead :: "buffer \<Rightarrow> scan_state \<Rightarrow> control" where
  "scan_body_nolookahead buffer s0 =
     (let s = note_examined (position s0) s0 in
      case parseFrameHeader buffer (position s) of
        Inl e \<Rightarrow> Continue (advance s)
      | Inr None \<Rightarrow> Continue (advance s)
      | Inr (Some header) \<Rightarrow>
          if frameSize header < 4 \<or> frameSize header > 1440 then Continue (advance s)
          else if position s + frameSize header > length buffer then
            (if position s + 4 \<le> length buffer then Break (count_frame s) else Break s)
          else
            let s1 = count_frame s;
                nextFramePos = position s1 + frameSize header in
            if int nextFramePos \<ge> int (length buffer) - 4 then Break s1
            else Continue (s1\<lparr>position := nextFramePos\<rparr>))"

lemma scan_body_nolookahead_Continue_position:
  assumes "scan_body_nolookahead buffer s = Continue s'"
  shows "position s < position s'"
  using assms
  by (auto simp: scan_body_nolookahead_def Let_def note_examined_def count_frame_def advance_def
      split: sum.splits option.splits if_splits)

function scan_loop_nolookahead :: "buffer \<Rightarrow> scan_state \<Rightarrow> scan_state" where
  "scan_loop_nolookahead buffer s =
     (if loop_cond buffer s then
        (case scan_body_nolookahead buffer s of
           Continue s' \<Rightarrow> scan_loop_nolookahead buffer s'
         | Break s' \<Rightarrow> s')
      else s)"
  by pat_completeness auto
termination
proof (relation "measure (\<lambda>(buffer, s). length buffer - position s)")
  show "wf (measure (\<lambda>(buffer, s). length buffer - position s))" by simp
next
  fix buffer :: buffer and s s' :: scan_state
  assume c: "loop_cond buffer s" and b: "scan_body_nolookahead buffer s = Continue s'"
  from b have "position s < position s'" by (rule scan_body_nolookahead_Continue_position)
  moreover from c have "position s < length buffer" by (simp add: loop_cond_def)
  ultimately show "((buffer, s'), (buffer, s)) \<in> measure (\<lambda>(buffer, s). length buffer - position s)"
    by simp
qed

definition scan_nolookahead :: "buffer \<Rightarrow> error + scan_state" where
  "scan_nolookahead buffer =
     (case skipId3 buffer of
        Inl e \<Rightarrow> Inl e
      | Inr start \<Rightarrow> Inr (scan_loop_nolookahead buffer (initial_state (nat start))))"

definition countMp3Frames_nolookahead :: "buffer \<Rightarrow> error + int" where
  "countMp3Frames_nolookahead buffer =
     (case scan_nolookahead buffer of Inl e \<Rightarrow> Inl e | Inr s \<Rightarrow> Inr (frameCount s))"

text \<open>Two states agree on what the program holds: the cursor and the count (and the counted positions).\<close>

definition same_core :: "scan_state \<Rightarrow> scan_state \<Rightarrow> bool" where
  "same_core s t \<longleftrightarrow>
     position s = position t \<and> frameCount s = frameCount t \<and> counted s = counted t"

definition same_control :: "control \<Rightarrow> control \<Rightarrow> bool" where
  "same_control c d =
     (case (c, d) of
        (Continue s, Continue t) \<Rightarrow> same_core s t
      | (Break s, Break t) \<Rightarrow> same_core s t
      | _ \<Rightarrow> False)"

subsection \<open>Test buffers\<close>

text \<open>
  The 417-byte constant-bitrate frame of the tests: the header \<open>0xFF, 0xFB, 0x90, 0x00\<close>
  followed by 413 zero bytes, and \<open>n\<close> copies of it back to back.
\<close>

definition cbr_header :: buffer where
  "cbr_header = [0xFF, 0xFB, 0x90, 0x00]"

definition cbr_frame :: buffer where
  "cbr_frame = cbr_header @ replicate 413 0"

definition cbr_frames :: "nat \<Rightarrow> buffer" where
  "cbr_frames n = concat (replicate n cbr_frame)"

text \<open>What the parser returns for that header.\<close>

definition cbr_parsed :: FrameHeader where
  "cbr_parsed = \<lparr>version = 3, layer = 1, bitrateIndex = 9, sampleRateIndex = 0,
                  padding = False, frameSize = 417\<rparr>"

subsection \<open>The header fields, read as bit fields\<close>

text \<open>
  The fields of a frame header at position \<open>p\<close> as the format lays them out: byte 0 is
  \<open>0xFF\<close> and the top three bits of byte 1 are set (the sync word); bits 3 to 4 of
  byte 1 are the version code, bits 1 to 2 the layer code; the top four bits of byte 2
  are the bitrate index, the next two the sample rate index, the next one the padding bit.
\<close>

definition sync_ok :: "buffer \<Rightarrow> nat \<Rightarrow> bool" where
  "sync_ok buffer p \<longleftrightarrow> buffer ! p = 0xFF \<and> drop_bit 5 (buffer ! (p + 1)) = 7"

definition version_code :: "buffer \<Rightarrow> nat \<Rightarrow> nat" where
  "version_code buffer p = unat (take_bit 2 (drop_bit 3 (buffer ! (p + 1))))"

definition layer_code :: "buffer \<Rightarrow> nat \<Rightarrow> nat" where
  "layer_code buffer p = unat (take_bit 2 (drop_bit 1 (buffer ! (p + 1))))"

definition bitrate_index :: "buffer \<Rightarrow> nat \<Rightarrow> nat" where
  "bitrate_index buffer p = unat (drop_bit 4 (buffer ! (p + 2)))"

definition sample_rate_index :: "buffer \<Rightarrow> nat \<Rightarrow> nat" where
  "sample_rate_index buffer p = unat (take_bit 2 (drop_bit 2 (buffer ! (p + 2))))"

definition padding_bit :: "buffer \<Rightarrow> nat \<Rightarrow> bool" where
  "padding_bit buffer p \<longleftrightarrow> bit (buffer ! (p + 2)) 1"

definition header_rules :: "buffer \<Rightarrow> nat \<Rightarrow> bool" where
  "header_rules buffer p \<longleftrightarrow>
     p + 4 \<le> length buffer \<and> sync_ok buffer p \<and> version_code buffer p = 3 \<and>
     layer_code buffer p = 1 \<and> bitrate_index buffer p \<noteq> 0 \<and> bitrate_index buffer p \<noteq> 15 \<and>
     sample_rate_index buffer p \<noteq> 3"

text \<open>
  What the history fields say about a run that started at \<open>start\<close>: every counted
  position carries a header that passes all rules, every counted or examined position
  lies before the last four bytes and not before \<open>start\<close>, and \<open>frameCount\<close> is the
  number of counted positions.
\<close>

definition log_inv :: "buffer \<Rightarrow> nat \<Rightarrow> scan_state \<Rightarrow> bool" where
  "log_inv buffer start s \<longleftrightarrow>
     frameCount s = int (length (counted s)) \<and> start \<le> position s \<and>
     (\<forall>p \<in> set (counted s). header_rules buffer p \<and> p + 4 < length buffer \<and> start \<le> p) \<and>
     (\<forall>p \<in> set (examined s). p + 4 < length buffer \<and> start \<le> p)"

text \<open>The tables of the specification, as lists: bitrates for the indices 1 to 14, sample rates for 0 to 2.\<close>

definition spec_bitrates_kbps :: "nat list" where
  "spec_bitrates_kbps = [32, 40, 48, 56, 64, 80, 96, 112, 128, 160, 192, 224, 256, 320]"

definition spec_sample_rates_hz :: "nat list" where
  "spec_sample_rates_hz = [44100, 48000, 32000]"

section \<open>Facts about the byte operations\<close>

lemma and3_take_bit: "(w :: byte) AND 0x03 = take_bit 2 w"
  by (simp add: take_bit_eq_mask mask_eq_exp_minus_1)

lemma and15_drop4: "drop_bit 4 (w :: byte) AND 0x0F = drop_bit 4 w"
proof -
  have "drop_bit 4 w AND 0x0F = take_bit 4 (drop_bit 4 w)"
    by (simp add: take_bit_eq_mask mask_eq_exp_minus_1)
  also have "\<dots> = drop_bit 4 w"
    by (rule bit_eqI) (auto simp: bit_simps dest: bit_imp_le_length)
  finally show ?thesis .
qed

lemma and1_bit: "(drop_bit 1 (w :: byte) AND 0x01 = 1) \<longleftrightarrow> bit w 1"
  by (simp add: and_one_eq bit_iff_odd_drop_bit mod_2_eq_odd)

lemma and1_bit_Suc: "(drop_bit (Suc 0) (w :: byte) AND 1 = 1) \<longleftrightarrow> bit w (Suc 0)"
  using and1_bit [of w] by simp

lemma sync_lhs: "((w :: byte) AND 0xE0 = 0xE0) \<longleftrightarrow> (\<forall>n. 5 \<le> n \<and> n < 8 \<longrightarrow> bit w n)"
proof -
  have e: "(0xE0 :: byte) = push_bit 5 (mask 3)" by (simp add: mask_eq_exp_minus_1)
  show ?thesis unfolding e
    by (auto simp: bit_eq_iff bit_simps dest: bit_imp_le_length)
qed

lemma sync_rhs: "(drop_bit 5 (w :: byte) = 7) \<longleftrightarrow> (\<forall>n. 5 \<le> n \<and> n < 8 \<longrightarrow> bit w n)"
proof -
  have e: "(7 :: byte) = (mask 3)" by (simp add: mask_eq_exp_minus_1)
  have "(drop_bit 5 w = mask 3) \<longleftrightarrow> (\<forall>n<8. bit w (5 + n) = (n < 3))"
    by (auto simp: bit_eq_iff bit_simps dest: bit_imp_le_length)
  also have "\<dots> \<longleftrightarrow> (\<forall>n. 5 \<le> n \<and> n < 8 \<longrightarrow> bit w n)"
  proof
    assume a: "\<forall>n<8. bit w (5 + n) = (n < 3)"
    show "\<forall>n. 5 \<le> n \<and> n < 8 \<longrightarrow> bit w n"
    proof (intro allI impI)
      fix n :: nat assume n: "5 \<le> n \<and> n < 8"
      then have k: "n - 5 < 8" "n - 5 < 3" "5 + (n - 5) = n" by arith+
      from a k(1) have "bit w (5 + (n - 5)) = (n - 5 < 3)" by blast
      with k show "bit w n" by simp
    qed
  next
    assume a: "\<forall>n. 5 \<le> n \<and> n < 8 \<longrightarrow> bit w n"
    show "\<forall>n<8. bit w (5 + n) = (n < 3)"
    proof (intro allI impI)
      fix n :: nat assume "n < 8"
      show "bit w (5 + n) = (n < 3)"
      proof (cases "n < 3")
        case True with a show ?thesis by simp
      next
        case False
        then have "\<not> bit w (5 + n)" by (auto dest: bit_imp_le_length)
        with False show ?thesis by simp
      qed
    qed
  qed
  finally show ?thesis unfolding e .
qed

lemma sync_bits: "((w :: byte) AND 0xE0 = 0xE0) \<longleftrightarrow> drop_bit 5 w = 7"
  by (simp only: sync_lhs sync_rhs)

lemma nibble_lt: "unat (drop_bit 4 (w :: byte)) < 16"
proof -
  have "drop_bit 4 w AND 15 \<le> 15" by (rule word_and_le1)
  then have "drop_bit 4 w \<le> 15" by (simp only: and15_drop4)
  then have "unat (drop_bit 4 w) \<le> unat (15 :: byte)" by (simp only: word_le_nat_alt)
  then show ?thesis by simp
qed

lemma two_bits_lt: "unat (take_bit 2 (w :: byte)) < 4"
proof -
  have "w AND 3 \<le> 3" by (rule word_and_le1)
  then have "take_bit 2 w \<le> 3" by (simp only: and3_take_bit)
  then have "unat (take_bit 2 w) \<le> unat (3 :: byte)" by (simp only: word_le_nat_alt)
  then show ?thesis by simp
qed

section \<open>The lookup tables\<close>

lemma BITRATE_TABLE_defined:
  assumes "n \<noteq> 0" "n < 15"
  shows "\<exists>b. BITRATE_TABLE n = Some b \<and> b \<noteq> 0 \<and> b = spec_bitrates_kbps ! (n - 1)"
  using assms by (auto simp: BITRATE_TABLE_def spec_bitrates_kbps_def) arith

lemma SAMPLE_RATE_TABLE_defined:
  assumes "n < 3"
  shows "\<exists>r. SAMPLE_RATE_TABLE n = Some r \<and> r \<noteq> 0 \<and> r = spec_sample_rates_hz ! n"
  using assms by (auto simp: SAMPLE_RATE_TABLE_def spec_sample_rates_hz_def)

lemma bitrate_index_lt: "bitrate_index buffer p < 16"
  by (simp add: bitrate_index_def nibble_lt)

lemma sample_rate_index_lt: "sample_rate_index buffer p < 4"
  by (simp add: sample_rate_index_def two_bits_lt)

section \<open>What parseFrameHeader returns\<close>

lemma parse_rules_fail:
  assumes "\<not> header_rules buffer p"
  shows "parseFrameHeader buffer p = Inr None"
  using assms
  by (auto simp: parseFrameHeader_def readByte_def Let_def header_rules_def sync_ok_def
      version_code_def layer_code_def bitrate_index_def sample_rate_index_def
      and3_take_bit and15_drop4 sync_bits
      split: option.splits)

lemma parse_rules_hold:
  assumes "header_rules buffer p"
  shows "\<exists>b r. BITRATE_TABLE (bitrate_index buffer p) = Some b \<and>
               SAMPLE_RATE_TABLE (sample_rate_index buffer p) = Some r \<and> b \<noteq> 0 \<and> r \<noteq> 0 \<and>
               b = spec_bitrates_kbps ! (bitrate_index buffer p - 1) \<and>
               r = spec_sample_rates_hz ! sample_rate_index buffer p \<and>
      parseFrameHeader buffer p = Inr (Some \<lparr>version = 3, layer = 1,
         bitrateIndex = bitrate_index buffer p,
         sampleRateIndex = sample_rate_index buffer p,
         padding = padding_bit buffer p,
         frameSize = (144 * b * 1000) div r + (if padding_bit buffer p then 1 else 0)\<rparr>)"
proof -
  from assms have bi: "bitrate_index buffer p \<noteq> 0" "bitrate_index buffer p < 15"
    and si: "sample_rate_index buffer p < 3"
    using bitrate_index_lt [of buffer p] sample_rate_index_lt [of buffer p]
    by (auto simp: header_rules_def)
  from BITRATE_TABLE_defined [OF bi] obtain b
    where b: "BITRATE_TABLE (bitrate_index buffer p) = Some b" "b \<noteq> 0"
      "b = spec_bitrates_kbps ! (bitrate_index buffer p - 1)"
    by blast
  from SAMPLE_RATE_TABLE_defined [OF si] obtain r
    where r: "SAMPLE_RATE_TABLE (sample_rate_index buffer p) = Some r" "r \<noteq> 0"
      "r = spec_sample_rates_hz ! sample_rate_index buffer p"
    by blast
  from assms have len: "p + 4 \<le> length buffer" and sy: "sync_ok buffer p"
    and v: "version_code buffer p = 3" and l: "layer_code buffer p = 1"
    and b15: "bitrate_index buffer p \<noteq> 15" and s3: "sample_rate_index buffer p \<noteq> 3"
    by (simp_all add: header_rules_def)
  have "parseFrameHeader buffer p = Inr (Some \<lparr>version = 3, layer = 1,
         bitrateIndex = bitrate_index buffer p,
         sampleRateIndex = sample_rate_index buffer p,
         padding = padding_bit buffer p,
         frameSize = (144 * b * 1000) div r + (if padding_bit buffer p then 1 else 0)\<rparr>)"
    using len sy v l bi(1) b15 s3 b(1,2) r(1,2)
    unfolding parseFrameHeader_def readByte_def Let_def sync_ok_def
      version_code_def layer_code_def bitrate_index_def sample_rate_index_def padding_bit_def
    by (simp add: and3_take_bit and15_drop4 sync_bits and1_bit_Suc)
  with b r show ?thesis by blast
qed

lemma parse_None_iff: "parseFrameHeader buffer p = Inr None \<longleftrightarrow> \<not> header_rules buffer p"
  using parse_rules_fail [of buffer p] parse_rules_hold [of buffer p] by auto

lemma parseFrameHeader_cases:
  obtains (invalid) "\<not> header_rules buffer p" "parseFrameHeader buffer p = Inr None"
  | (valid) h where "header_rules buffer p" "parseFrameHeader buffer p = Inr (Some h)"
  using parse_rules_fail [of buffer p] parse_rules_hold [of buffer p] by blast

section \<open>The tag size\<close>

lemma id3Size_unbounded:
  "id3Size b6 b7 b8 b9 =
     (push_bit 21 (uint b6)) OR (push_bit 14 (uint b7)) OR (push_bit 7 (uint b8)) OR (uint b9)"
  unfolding id3Size_def
  by (rule bit_eqI) (auto simp add: bit_simps min_def dest: bit_imp_le_length)

lemma id3Size_nonneg: "0 \<le> id3Size b6 b7 b8 b9"
  by (simp add: id3Size_unbounded)

section \<open>The loop\<close>

declare scan_loop.simps [simp del]
declare scan_states.simps [simp del]
declare scan_loop_nolookahead.simps [simp del]

lemma loop_cond_iff: "loop_cond buffer s \<longleftrightarrow> position s + 4 < length buffer"
  by (auto simp: loop_cond_def)

lemma scan_loop_stop: "\<not> loop_cond buffer s \<Longrightarrow> scan_loop buffer s = s"
  by (simp add: scan_loop.simps)

lemma scan_loop_Continue:
  "loop_cond buffer s \<Longrightarrow> scan_body buffer s = Continue s' \<Longrightarrow> scan_loop buffer s = scan_loop buffer s'"
  by (simp add: scan_loop.simps)

lemma scan_loop_Break:
  "loop_cond buffer s \<Longrightarrow> scan_body buffer s = Break s' \<Longrightarrow> scan_loop buffer s = s'"
  by (simp add: scan_loop.simps)

lemma scan_body_invalid:
  assumes "\<not> header_rules buffer (position s)"
  shows "scan_body buffer s = Continue (advance (note_examined (position s) s))"
  using parse_rules_fail [OF assms]
  by (simp add: scan_body_def Let_def note_examined_def)

lemma scan_loop_invariant:
  assumes "I s"
    and "\<And>t. I t \<Longrightarrow> loop_cond buffer t \<Longrightarrow> I (result_state (scan_body buffer t))"
  shows "I (scan_loop buffer s)"
  using assms
proof (induction buffer s rule: scan_loop.induct)
  case (1 buffer s)
  note step = "1.prems"(2)
  show ?case
  proof (cases "loop_cond buffer s")
    case False
    with "1.prems"(1) show ?thesis by (simp add: scan_loop_stop)
  next
    case True
    from step [OF "1.prems"(1) True] have r: "I (result_state (scan_body buffer s))" .
    show ?thesis
    proof (cases "scan_body buffer s")
      case (Continue s')
      with r have "I s'" by (simp add: result_state_def)
      from "1.IH" [OF True Continue this step] have "I (scan_loop buffer s')" by simp
      with True Continue show ?thesis by (simp add: scan_loop_Continue)
    next
      case (Break s')
      with r have "I s'" by (simp add: result_state_def)
      with True Break show ?thesis by (simp add: scan_loop_Break)
    qed
  qed
qed

lemma scan_body_log_inv:
  assumes "log_inv buffer start s" "loop_cond buffer s"
  shows "log_inv buffer start (result_state (scan_body buffer s))"
proof (cases buffer "position s" rule: parseFrameHeader_cases)
  case invalid
  with assms show ?thesis
    by (simp add: scan_body_invalid result_state_def advance_def note_examined_def
        log_inv_def loop_cond_iff)
next
  case (valid h)
  with assms show ?thesis
    by (auto simp: scan_body_def Let_def result_state_def advance_def note_examined_def
        count_frame_def log_inv_def loop_cond_iff split: sum.splits option.splits)
qed

lemma log_inv_initial: "log_inv buffer start (initial_state start)"
  by (simp add: log_inv_def initial_state_def)

lemma scan_loop_log_inv: "log_inv buffer start (scan_loop buffer (initial_state start))"
  by (rule scan_loop_invariant [where I = "log_inv buffer start"])
     (simp_all add: log_inv_initial scan_body_log_inv)

lemma scan_Inr: "\<exists>start. skipId3 buffer = Inr start \<and> 0 \<le> start \<and>
    scan buffer = Inr (scan_loop buffer (initial_state (nat start)))"
  by (auto simp: scan_def skipId3_def readByte_def id3Size_nonneg)

lemma scan_final_log_inv:
  assumes "scan buffer = Inr s"
  shows "\<exists>start. skipId3 buffer = Inr (int start) \<and> log_inv buffer start s"
proof -
  from scan_Inr [of buffer] obtain start where st: "skipId3 buffer = Inr start" "0 \<le> start"
    "scan buffer = Inr (scan_loop buffer (initial_state (nat start)))" by blast
  with assms have "s = scan_loop buffer (initial_state (nat start))" by simp
  with scan_loop_log_inv [of buffer "nat start"] st show ?thesis
    by (intro exI [of _ "nat start"]) simp
qed

lemma countMp3Frames_eq:
  "\<exists>s. scan buffer = Inr s \<and> countMp3Frames buffer = Inr (frameCount s)"
  using scan_Inr [of buffer] by (auto simp: countMp3Frames_def)

lemma short_buffer_no_header: "length buffer < 4 \<Longrightarrow> \<not> header_rules buffer p"
  by (simp add: header_rules_def)

lemma no_header_count_zero:
  assumes "\<forall>p. \<not> header_rules buffer p"
  shows "countMp3Frames buffer = Inr 0"
proof -
  from countMp3Frames_eq [of buffer] obtain s
    where s: "scan buffer = Inr s" "countMp3Frames buffer = Inr (frameCount s)" by blast
  from scan_final_log_inv [OF s(1)] obtain start where "log_inv buffer start s" by blast
  with assms have "counted s = []" "frameCount s = int (length (counted s))"
    by (auto simp: log_inv_def intro: ccontr)
  with s show ?thesis by simp
qed

section \<open>Buffers without a valid header\<close>

text \<open>
  Claim C3. For every buffer in which no position satisfies all header rules (sync word,
  version, layer, bitrate index, sample rate index), which includes every buffer shorter
  than 4 bytes and the empty buffer, \<open>countMp3Frames\<close> returns 0.
\<close>

theorem no_valid_header_gives_zero:
  "((\<forall>p. \<not> header_rules buffer p) \<longrightarrow> countMp3Frames buffer = Inr 0) \<and>
   (length buffer < 4 \<longrightarrow> countMp3Frames buffer = Inr 0) \<and>
   (buffer = [] \<longrightarrow> countMp3Frames buffer = Inr 0)"
proof (intro conjI impI)
  assume "\<forall>p. \<not> header_rules buffer p"
  then show "countMp3Frames buffer = Inr 0" by (rule no_header_count_zero)
next
  assume "length buffer < 4"
  then have "\<forall>p. \<not> header_rules buffer p" by (simp add: short_buffer_no_header)
  then show "countMp3Frames buffer = Inr 0" by (rule no_header_count_zero)
next
  assume "buffer = []"
  then have "\<forall>p. \<not> header_rules buffer p" by (simp add: short_buffer_no_header)
  then show "countMp3Frames buffer = Inr 0" by (rule no_header_count_zero)
qed

lemma noise_no_header: "\<not> header_rules [0x12, 0xFF, 0x34, 0xFF, 0xE0, 0x56] p"
proof -
  have "p = 0 \<or> p = 1 \<or> p = 2 \<or> 2 < p" by arith
  then show ?thesis
    by (auto simp: header_rules_def sync_ok_def)
qed

theorem no_valid_header_gives_zero_witness:
  "countMp3Frames [0x12, 0xFF, 0x34, 0xFF, 0xE0, 0x56] = Inr 0 \<and>
   countMp3Frames [0xFF, 0xFB] = Inr 0 \<and> countMp3Frames [] = Inr 0"
  using no_valid_header_gives_zero [of "[0x12, 0xFF, 0x34, 0xFF, 0xE0, 0x56]"]
    no_valid_header_gives_zero [of "[0xFF, 0xFB]"] no_valid_header_gives_zero [of "[]"]
  by (simp add: noise_no_header)

section \<open>Headers the parser rejects\<close>

text \<open>
  Claim C4. For every buffer and position, \<open>parseFrameHeader\<close> returns null when
  byte 0 is not \<open>0xFF\<close>, or the top three bits of byte 1 are not all set, or the version
  code is not that of MPEG Version 1, or the layer code is not that of Layer III, or the
  bitrate index is 0 or 15, or the sample rate index is 3 (and also when fewer than four
  bytes remain). The loop body at that cursor then only advances by one byte, and the
  position is not among the counted positions of the scan.
\<close>

theorem parseFrameHeader_rejects_invalid:
  assumes "p + 4 \<le> length buffer \<longrightarrow>
     buffer ! p \<noteq> 0xFF \<or> drop_bit 5 (buffer ! (p + 1)) \<noteq> 7 \<or>
     version_code buffer p \<noteq> 3 \<or> layer_code buffer p \<noteq> 1 \<or>
     bitrate_index buffer p = 0 \<or> bitrate_index buffer p = 15 \<or>
     sample_rate_index buffer p = 3"
  shows "parseFrameHeader buffer p = Inr None \<and>
     (\<forall>s. position s = p \<longrightarrow> scan_body buffer s = Continue (advance (note_examined p s))) \<and>
     (\<forall>s. scan buffer = Inr s \<longrightarrow> p \<notin> set (counted s))"
proof -
  from assms have n: "\<not> header_rules buffer p"
    by (auto simp: header_rules_def sync_ok_def)
  have "\<And>s. scan buffer = Inr s \<Longrightarrow> p \<notin> set (counted s)"
  proof -
    fix s assume "scan buffer = Inr s"
    from scan_final_log_inv [OF this] obtain start where "log_inv buffer start s" by blast
    with n show "p \<notin> set (counted s)" by (auto simp: log_inv_def)
  qed
  with n show ?thesis
    by (auto simp: parse_rules_fail scan_body_invalid)
qed

theorem parseFrameHeader_rejects_invalid_witness:
  "parseFrameHeader [0xFF, 0xFB, 0x00, 0x00, 0xFF, 0xFB, 0xF0, 0x00] 0 = Inr None \<and>
   parseFrameHeader [0xFF, 0xFB, 0x00, 0x00, 0xFF, 0xFB, 0xF0, 0x00] 4 = Inr None \<and>
   scan_body [0xFF, 0xFB, 0x00, 0x00, 0xFF, 0xFB, 0xF0, 0x00] (initial_state 0) =
     Continue (advance (note_examined 0 (initial_state 0)))"
  using parseFrameHeader_rejects_invalid [of 0 "[0xFF, 0xFB, 0x00, 0x00, 0xFF, 0xFB, 0xF0, 0x00]"]
    parseFrameHeader_rejects_invalid [of 4 "[0xFF, 0xFB, 0x00, 0x00, 0xFF, 0xFB, 0xF0, 0x00]"]
  by (simp add: bitrate_index_def initial_state_def)

lemma parse_Some_rules:
  assumes "parseFrameHeader buffer p = Inr (Some h)"
  shows "header_rules buffer p"
  using assms parse_rules_fail [of buffer p] by auto

section \<open>The frame size\<close>

text \<open>
  Claim C6. Wherever \<open>parseFrameHeader\<close> succeeds, the bitrate index lies in 1 to 14
  and the sample rate index in 0 to 2, both are the bit fields of byte 2, and the returned
  \<open>frameSize\<close> is the floor of \<open>144 * bitrate_kbps * 1000 / sampleRate_Hz\<close>, with the
  bitrate and the sample rate taken from the fixed tables, plus 1 when the padding bit is
  set. Bitrate index 9 at 44100 Hz without padding gives 417.
\<close>

theorem frameSize_formula:
  assumes "parseFrameHeader buffer p = Inr (Some h)"
  shows "1 \<le> bitrateIndex h \<and> bitrateIndex h \<le> 14 \<and> sampleRateIndex h \<le> 2 \<and>
     bitrateIndex h = bitrate_index buffer p \<and>
     sampleRateIndex h = sample_rate_index buffer p \<and>
     padding h = padding_bit buffer p \<and>
     int (frameSize h) =
       \<lfloor>144 * real (spec_bitrates_kbps ! (bitrateIndex h - 1)) * 1000
          / real (spec_sample_rates_hz ! sampleRateIndex h)\<rfloor>
       + (if padding h then 1 else 0) \<and>
     (bitrateIndex h = 9 \<and> sampleRateIndex h = 0 \<and> \<not> padding h \<longrightarrow> frameSize h = 417)"
proof -
  from assms have hr: "header_rules buffer p" by (rule parse_Some_rules)
  from parse_rules_hold [OF hr] assms obtain b r where
    b: "b = spec_bitrates_kbps ! (bitrate_index buffer p - 1)" and
    r: "r = spec_sample_rates_hz ! sample_rate_index buffer p" and
    h: "h = \<lparr>version = 3, layer = 1, bitrateIndex = bitrate_index buffer p,
         sampleRateIndex = sample_rate_index buffer p, padding = padding_bit buffer p,
         frameSize = (144 * b * 1000) div r + (if padding_bit buffer p then 1 else 0)\<rparr>"
    by auto
  from hr have bi: "1 \<le> bitrate_index buffer p" "bitrate_index buffer p \<le> 14"
    and si: "sample_rate_index buffer p \<le> 2"
    using bitrate_index_lt [of buffer p] sample_rate_index_lt [of buffer p]
    by (auto simp: header_rules_def)
  have fl: "\<lfloor>144 * real b * 1000 / real r\<rfloor> = int ((144 * b * 1000) div r)"
  proof -
    have "144 * real b * 1000 / real r = real (144 * b * 1000) / real r" by simp
    then show ?thesis by (simp only: floor_divide_of_nat_eq)
  qed
  have B: "spec_bitrates_kbps ! (bitrateIndex h - 1) = b" by (simp add: h b)
  have R: "spec_sample_rates_hz ! sampleRateIndex h = r" by (simp add: h r)
  have F: "int (frameSize h) =
       \<lfloor>144 * real (spec_bitrates_kbps ! (bitrateIndex h - 1)) * 1000
          / real (spec_sample_rates_hz ! sampleRateIndex h)\<rfloor>
       + (if padding h then 1 else 0)"
    unfolding B R fl by (simp add: h)
  have E: "bitrateIndex h = 9 \<and> sampleRateIndex h = 0 \<and> \<not> padding h \<longrightarrow> frameSize h = 417"
    by (simp add: h b r spec_bitrates_kbps_def spec_sample_rates_hz_def)
  have I: "1 \<le> bitrateIndex h" "bitrateIndex h \<le> 14" "sampleRateIndex h \<le> 2"
    "bitrateIndex h = bitrate_index buffer p" "sampleRateIndex h = sample_rate_index buffer p"
    "padding h = padding_bit buffer p"
    using bi si by (simp_all add: h)
  from I F E show ?thesis by blast
qed

theorem frameSize_formula_witness:
  "parseFrameHeader [0xFF, 0xFB, 0x90, 0x00] 0 =
     Inr (Some \<lparr>version = 3, layer = 1, bitrateIndex = 9, sampleRateIndex = 0,
                padding = False, frameSize = 417\<rparr>) \<and>
   (417 :: int) = \<lfloor>144 * real (spec_bitrates_kbps ! 8) * 1000 / real (spec_sample_rates_hz ! 0)\<rfloor>"
proof -
  have p: "parseFrameHeader [0xFF, 0xFB, 0x90, 0x00] 0 =
     Inr (Some \<lparr>version = 3, layer = 1, bitrateIndex = 9, sampleRateIndex = 0,
                padding = False, frameSize = 417\<rparr>)"
    by (simp add: parseFrameHeader_def readByte_def BITRATE_TABLE_def SAMPLE_RATE_TABLE_def)
  from frameSize_formula [OF p] p show ?thesis by simp
qed

section \<open>Detecting the tag\<close>

lemma ascii_char_eq: "char_of (unat (w :: byte)) = c \<longleftrightarrow> unat w = of_char c"
proof -
  have "unat w < 2 ^ 8" using unsigned_less [of w] by simp
  then have "take_bit 8 (unat w) = unat w" by (simp only: take_bit_nat_eq_self)
  then show ?thesis by (simp add: char_of_eq_iff)
qed

lemma list3_cases:
  obtains (short) "length (xs :: 'a list) < 3" | (long) a b c rest where "xs = a # b # c # rest"
proof (cases xs)
  case Nil then show ?thesis using short by simp
next
  case (Cons a ys)
  show ?thesis
  proof (cases ys)
    case Nil with Cons show ?thesis using short by simp
  next
    case (Cons b zs)
    note c2 = this
    show ?thesis
    proof (cases zs)
      case Nil with c2 \<open>xs = a # ys\<close> show ?thesis using short by simp
    next
      case (Cons c rest)
      with c2 \<open>xs = a # ys\<close> show ?thesis using long by simp
    qed
  qed
qed

lemma id3_detect:
  "toString_ascii buffer 0 3 = ''ID3'' \<longleftrightarrow>
     3 \<le> length buffer \<and> unat (buffer ! 0 AND 0x7F) = 73 \<and>
     unat (buffer ! 1 AND 0x7F) = 68 \<and> unat (buffer ! 2 AND 0x7F) = 51"
proof (cases buffer rule: list3_cases)
  case short
  then have "length (toString_ascii buffer 0 3) < 3" by (simp add: toString_ascii_def)
  with short show ?thesis by auto
next
  case (long a b c rest)
  then show ?thesis by (simp add: toString_ascii_def ascii_char_eq)
qed

section \<open>What the tag skip returns\<close>

lemma skipId3_short: "length buffer < 10 \<Longrightarrow> skipId3 buffer = Inr 0"
  by (simp add: skipId3_def)

lemma skipId3_no_tag:
  assumes "unat (buffer ! 0 AND 0x7F) \<noteq> 73 \<or> unat (buffer ! 1 AND 0x7F) \<noteq> 68 \<or>
           unat (buffer ! 2 AND 0x7F) \<noteq> 51"
  shows "skipId3 buffer = Inr 0"
  using assms by (auto simp: skipId3_def id3_detect)

lemma skipId3_tag:
  assumes "10 \<le> length buffer" "unat (buffer ! 0 AND 0x7F) = 73"
    "unat (buffer ! 1 AND 0x7F) = 68" "unat (buffer ! 2 AND 0x7F) = 51"
  shows "skipId3 buffer =
     Inr (10 + id3Size (buffer ! 6) (buffer ! 7) (buffer ! 8) (buffer ! 9))"
  using assms by (simp add: skipId3_def id3_detect readByte_def)

section \<open>Errors never reach the caller\<close>

lemma readByte_error_iff: "readByte buffer p = Inl BufferOverflow \<longleftrightarrow> length buffer \<le> p"
  by (simp add: readByte_def)

lemma countMp3Frames_nonneg: "\<exists>n. countMp3Frames buffer = Inr n \<and> 0 \<le> n"
proof -
  from countMp3Frames_eq [of buffer] obtain s
    where s: "scan buffer = Inr s" "countMp3Frames buffer = Inr (frameCount s)" by blast
  from scan_final_log_inv [OF s(1)] obtain start where "log_inv buffer start s" by blast
  then have "0 \<le> frameCount s" by (simp add: log_inv_def)
  with s show ?thesis by simp
qed

text \<open>
  Claim C7. For every buffer, \<open>countMp3Frames\<close> returns a non-negative integer and no
  error: \<open>readByte\<close> fails exactly when the position is not below the buffer length,
  \<open>parseFrameHeader\<close> never lets that failure out, and a header that fails the validity
  rules makes the loop body advance the cursor by one byte without counting.
\<close>

theorem countMp3Frames_never_fails:
  "(\<exists>n. countMp3Frames buffer = Inr n \<and> 0 \<le> n) \<and>
   (\<forall>p. readByte buffer p = Inl BufferOverflow \<longleftrightarrow> length buffer \<le> p) \<and>
   (\<forall>p e. parseFrameHeader buffer p \<noteq> Inl e) \<and>
   (\<forall>s. parseFrameHeader buffer (position s) = Inr None \<longrightarrow>
        scan_body buffer s = Continue (advance (note_examined (position s) s)) \<and>
        position (advance (note_examined (position s) s)) = position s + 1 \<and>
        frameCount (advance (note_examined (position s) s)) = frameCount s)"
  using countMp3Frames_nonneg [of buffer]
  by (auto simp: readByte_error_iff parseFrameHeader_no_error parse_None_iff scan_body_invalid
      advance_def note_examined_def)

theorem countMp3Frames_never_fails_witness:
  "countMp3Frames [0x12, 0xFF, 0x34, 0xFF, 0xE0, 0x56] = Inr 0 \<and>
   readByte [0x12, 0xFF, 0x34, 0xFF, 0xE0, 0x56] 6 = Inl BufferOverflow \<and>
   scan_body [0x12, 0xFF, 0x34, 0xFF, 0xE0, 0x56] (initial_state 1) =
     Continue \<lparr>position = 2, frameCount = 0, examined = [1], counted = []\<rparr>"
proof -
  let ?b = "[0x12, 0xFF, 0x34, 0xFF, 0xE0, 0x56] :: buffer"
  have p: "parseFrameHeader ?b (position (initial_state 1)) = Inr None"
    by (simp add: parse_None_iff noise_no_header)
  have c: "countMp3Frames ?b = Inr 0"
    by (simp add: no_header_count_zero noise_no_header)
  from countMp3Frames_never_fails [of ?b] p c show ?thesis
    by (simp add: initial_state_def advance_def note_examined_def)
qed

section \<open>A frame that overruns the buffer\<close>

text \<open>
  Claim C8. When the header at the cursor is accepted with a frame size in 4 to 1440 and
  the frame would overrun the buffer, the loop body counts it exactly when at least four
  bytes remain from the cursor, and leaves the loop in either case: the state the loop
  returns is the state of that moment, so nothing further is examined or counted.
\<close>

theorem overrun_counts_partial_frame_and_stops:
  assumes "parseFrameHeader buffer (position s) = Inr (Some h)"
    and "4 \<le> frameSize h" and "frameSize h \<le> 1440"
    and "position s + frameSize h > length buffer"
  shows "scan_body buffer s =
           Break (if position s + 4 \<le> length buffer
                  then count_frame (note_examined (position s) s)
                  else note_examined (position s) s) \<and>
         (loop_cond buffer s \<longrightarrow>
            frameCount (scan_loop buffer s) =
              frameCount s + (if position s + 4 \<le> length buffer then 1 else 0) \<and>
            position (scan_loop buffer s) = position s \<and>
            examined (scan_loop buffer s) = examined s @ [position s] \<and>
            counted (scan_loop buffer s) =
              counted s @ (if position s + 4 \<le> length buffer then [position s] else []))"
proof -
  from assms have b: "scan_body buffer s =
           Break (if position s + 4 \<le> length buffer
                  then count_frame (note_examined (position s) s)
                  else note_examined (position s) s)"
    by (simp add: scan_body_def Let_def note_examined_def)
  then show ?thesis
    by (auto simp: scan_loop_Break count_frame_def note_examined_def)
qed

theorem overrun_counts_partial_frame_and_stops_witness:
  "scan_body [0xFF, 0xFB, 0x90, 0x00, 0xFF, 0xFB, 0x90, 0x00, 0x00, 0x00] (initial_state 0) =
     Break \<lparr>position = 0, frameCount = 1, examined = [0], counted = [0]\<rparr> \<and>
   scan_loop [0xFF, 0xFB, 0x90, 0x00, 0xFF, 0xFB, 0x90, 0x00, 0x00, 0x00] (initial_state 0) =
     \<lparr>position = 0, frameCount = 1, examined = [0], counted = [0]\<rparr>"
proof -
  let ?b = "[0xFF, 0xFB, 0x90, 0x00, 0xFF, 0xFB, 0x90, 0x00, 0x00, 0x00] :: buffer"
  let ?h = "\<lparr>version = 3, layer = 1, bitrateIndex = 9, sampleRateIndex = 0,
                padding = False, frameSize = 417\<rparr>"
  have p: "parseFrameHeader ?b (position (initial_state 0)) = Inr (Some ?h)"
    by (simp add: parseFrameHeader_def readByte_def BITRATE_TABLE_def SAMPLE_RATE_TABLE_def
        initial_state_def)
  have c: "loop_cond ?b (initial_state 0)" by (simp add: loop_cond_def initial_state_def)
  from overrun_counts_partial_frame_and_stops [OF p] c show ?thesis
    by (simp add: initial_state_def count_frame_def note_examined_def)
qed

section \<open>The constant-bitrate test frame\<close>

lemma parse_cbr_header_at:
  assumes "p + 4 \<le> length buffer" "buffer ! p = 0xFF" "buffer ! (p + 1) = 0xFB"
    "buffer ! (p + 2) = 0x90"
  shows "parseFrameHeader buffer p = Inr (Some cbr_parsed)"
  using assms
  by (simp add: parseFrameHeader_def readByte_def BITRATE_TABLE_def SAMPLE_RATE_TABLE_def
      cbr_parsed_def)

lemma scan_body_cbr_last:
  assumes "parseFrameHeader buffer (position s) = Inr (Some cbr_parsed)"
    and "position s + 417 \<le> length buffer" and "length buffer \<le> position s + 421"
  shows "scan_body buffer s = Break (count_frame (note_examined (position s) s))"
  using assms
  by (simp add: scan_body_def Let_def note_examined_def count_frame_def cbr_parsed_def)

lemma scan_body_cbr_next:
  assumes "parseFrameHeader buffer (position s) = Inr (Some cbr_parsed)"
    and "position s + 421 < length buffer"
  shows "scan_body buffer s =
     Continue ((note_examined (position s + 417) (count_frame (note_examined (position s) s)))
                \<lparr>position := position s + 417\<rparr>)"
  using assms
  by (auto simp: scan_body_def Let_def note_examined_def count_frame_def cbr_parsed_def
      parseFrameHeader_no_error split: sum.splits)

lemma length_cbr_frame: "length cbr_frame = 417"
  by (simp add: cbr_frame_def cbr_header_def)

lemma length_cbr_frames: "length (cbr_frames n) = 417 * n"
  by (induction n) (simp_all add: cbr_frames_def length_cbr_frame)

lemma cbr_frames_Suc: "cbr_frames (Suc n) = cbr_frame @ cbr_frames n"
  by (simp add: cbr_frames_def)

lemma cbr_frames_nth:
  assumes "k < n" "i < 417"
  shows "cbr_frames n ! (417 * k + i) = cbr_frame ! i"
  using assms
proof (induction n arbitrary: k)
  case 0
  then show ?case by simp
next
  case (Suc n)
  show ?case
  proof (cases k)
    case 0
    with Suc.prems show ?thesis
      by (simp add: cbr_frames_Suc nth_append length_cbr_frame)
  next
    case (Suc j)
    with Suc.prems have j: "j < n" by simp
    have "417 * k + i = 417 + (417 * j + i)" using Suc by simp
    then have "cbr_frames (Suc n) ! (417 * k + i) = cbr_frames n ! (417 * j + i)"
      by (simp add: cbr_frames_Suc nth_append length_cbr_frame)
    with Suc.IH [OF j Suc.prems(2)] show ?thesis by simp
  qed
qed

lemma cbr_frame_head:
  "cbr_frame ! 0 = 0xFF" "cbr_frame ! 1 = 0xFB" "cbr_frame ! 2 = 0x90"
  by (simp_all add: cbr_frame_def cbr_header_def)

lemma parse_cbr_frames:
  assumes "k < n"
  shows "parseFrameHeader (cbr_frames n) (417 * k) = Inr (Some cbr_parsed)"
proof (rule parse_cbr_header_at)
  from assms have "417 * k + 417 \<le> 417 * n" by simp
  then show "417 * k + 4 \<le> length (cbr_frames n)" by (simp add: length_cbr_frames)
  from cbr_frames_nth [OF assms, of 0] cbr_frame_head(1)
  show "cbr_frames n ! (417 * k) = 0xFF" by simp
  from cbr_frames_nth [OF assms, of 1] cbr_frame_head(2)
  show "cbr_frames n ! (417 * k + 1) = 0xFB" by simp
  from cbr_frames_nth [OF assms, of 2] cbr_frame_head(3)
  show "cbr_frames n ! (417 * k + 2) = 0x90" by simp
qed

lemma scan_loop_cbr_frames:
  assumes "position s = 417 * k" "k + j + 1 = n"
  shows "frameCount (scan_loop (cbr_frames n) s) = frameCount s + int (j + 1)"
  using assms
proof (induction j arbitrary: s k)
  case 0
  then have k: "k < n" and n: "n = k + 1" by simp_all
  have c: "loop_cond (cbr_frames n) s"
    using 0 by (simp add: loop_cond_iff length_cbr_frames)
  have p: "parseFrameHeader (cbr_frames n) (position s) = Inr (Some cbr_parsed)"
    using parse_cbr_frames [OF k] 0 by simp
  have "scan_body (cbr_frames n) s = Break (count_frame (note_examined (position s) s))"
    by (rule scan_body_cbr_last [OF p]) (simp_all add: length_cbr_frames 0 n)
  with c show ?case
    by (simp add: scan_loop_Break count_frame_def note_examined_def)
next
  case (Suc j)
  then have k: "k < n" and n: "n = k + j + 2" by simp_all
  have c: "loop_cond (cbr_frames n) s"
    using Suc.prems by (simp add: loop_cond_iff length_cbr_frames n)
  have p: "parseFrameHeader (cbr_frames n) (position s) = Inr (Some cbr_parsed)"
    using parse_cbr_frames [OF k] Suc.prems by simp
  let ?s' = "(note_examined (position s + 417) (count_frame (note_examined (position s) s)))
                \<lparr>position := position s + 417\<rparr>"
  have b: "scan_body (cbr_frames n) s = Continue ?s'"
    by (rule scan_body_cbr_next [OF p]) (simp add: length_cbr_frames Suc.prems(1) n)
  have "position ?s' = 417 * (k + 1)" using Suc.prems by (simp add: note_examined_def)
  moreover have "(k + 1) + j + 1 = n" using n by simp
  ultimately have "frameCount (scan_loop (cbr_frames n) ?s') = frameCount ?s' + int (j + 1)"
    by (rule Suc.IH)
  with c b show ?case
    by (simp add: scan_loop_Continue count_frame_def note_examined_def)
qed

lemma cbr_frames_no_tag: "skipId3 (cbr_frames n) = Inr 0"
proof (cases n)
  case 0
  then show ?thesis by (simp add: skipId3_short cbr_frames_def)
next
  case (Suc m)
  then have "cbr_frames n ! 0 = 0xFF"
    by (simp add: cbr_frames_Suc nth_append length_cbr_frame cbr_frame_head)
  then show ?thesis by (simp add: skipId3_no_tag)
qed

lemma countMp3Frames_cbr_frames: "countMp3Frames (cbr_frames n) = Inr (int n)"
proof (cases n)
  case 0
  then show ?thesis
    by (simp add: countMp3Frames_def scan_def cbr_frames_no_tag scan_loop_stop loop_cond_iff
        initial_state_def length_cbr_frames)
next
  case (Suc m)
  have "frameCount (scan_loop (cbr_frames n) (initial_state 0)) =
      frameCount (initial_state 0) + int (m + 1)"
    by (rule scan_loop_cbr_frames [where k = 0]) (simp_all add: initial_state_def Suc)
  then show ?thesis
    by (simp add: countMp3Frames_def scan_def cbr_frames_no_tag initial_state_def Suc)
qed

section \<open>Back-to-back constant-bitrate frames\<close>

text \<open>
  Claim C1. For every N of at least 1, the buffer of exactly N back-to-back copies of the
  417-byte frame (the header \<open>0xFF, 0xFB, 0x90, 0x00\<close> and 413 zero bytes) makes
  \<open>countMp3Frames\<close> return N.
\<close>

theorem cbr_frames_counted:
  assumes "1 \<le> n"
  shows "countMp3Frames (concat (replicate n ([0xFF, 0xFB, 0x90, 0x00] @ replicate 413 0))) =
           Inr (int n) \<and>
         length (concat (replicate n ([0xFF, 0xFB, 0x90, 0x00] @ replicate 413 (0 :: byte)))) =
           417 * n"
  using countMp3Frames_cbr_frames [of n] length_cbr_frames [of n]
  by (simp only: cbr_frames_def cbr_frame_def cbr_header_def)

theorem cbr_frames_counted_witness:
  "countMp3Frames ([0xFF, 0xFB, 0x90, 0x00] @ replicate 413 0) = Inr 1 \<and>
   countMp3Frames (concat (replicate 3 ([0xFF, 0xFB, 0x90, 0x00] @ replicate 413 0))) = Inr 3"
proof -
  have one: "concat (replicate 1 xs) = xs" for xs :: buffer by simp
  have "(1 :: nat) \<le> 1" "(1 :: nat) \<le> 3" by simp_all
  from cbr_frames_counted [OF this(1)] cbr_frames_counted [OF this(2)]
  show ?thesis by (simp only: one of_nat_1 of_nat_numeral) 
qed

section \<open>The last four positions\<close>

lemma scan_loop_at_end:
  assumes "int (length buffer) - 4 \<le> int (position s)"
  shows "scan_loop buffer s = s"
  using assms by (simp add: scan_loop_stop loop_cond_def)

lemma scan_logs_before_end:
  assumes "scan buffer = Inr s" "p \<in> set (examined s) \<union> set (counted s)"
  shows "int p < int (length buffer) - 4"
proof -
  from scan_final_log_inv [OF assms(1)] obtain start where "log_inv buffer start s" by blast
  with assms(2) have "p + 4 < length buffer" by (auto simp: log_inv_def)
  then show ?thesis by simp
qed

text \<open>
  Claim C10. The loop runs only while the cursor is below the buffer length minus 4, so a
  header that starts at a position of at least the length minus 4 is never examined or
  counted: from such a cursor the loop returns at once, and no examined or counted
  position of a scan lies there. A buffer that is just the four bytes of the valid header
  \<open>0xFF, 0xFB, 0x90, 0x00\<close> gives 0.
\<close>

theorem tail_header_never_examined:
  "(\<forall>s. int (length buffer) - 4 \<le> int (position s) \<longrightarrow> scan_loop buffer s = s) \<and>
   (\<forall>s. scan buffer = Inr s \<longrightarrow>
      (\<forall>p \<in> set (examined s) \<union> set (counted s). int p < int (length buffer) - 4)) \<and>
   parseFrameHeader [0xFF, 0xFB, 0x90, 0x00] 0 = Inr (Some cbr_parsed) \<and>
   countMp3Frames [0xFF, 0xFB, 0x90, 0x00] = Inr 0"
proof -
  have "parseFrameHeader [0xFF, 0xFB, 0x90, 0x00] 0 = Inr (Some cbr_parsed)"
    by (rule parse_cbr_header_at) simp_all
  moreover have "countMp3Frames [0xFF, 0xFB, 0x90, 0x00] = Inr 0"
    by (simp add: countMp3Frames_def scan_def skipId3_short scan_loop_stop loop_cond_def
        initial_state_def)
  ultimately show ?thesis
    using scan_loop_at_end [of buffer] scan_logs_before_end [of buffer] by blast
qed

lemma tail_example_scan:
  "scan [0x00, 0x00, 0x00, 0x00, 0x00, 0xFF, 0xFB, 0x90, 0x00] =
     Inr \<lparr>position = 5, frameCount = 0, examined = [0, 1, 2, 3, 4], counted = []\<rparr>"
  by (simp add: scan_def skipId3_short scan_loop.simps loop_cond_def initial_state_def
      scan_body_def parseFrameHeader_def readByte_def note_examined_def advance_def)

theorem tail_header_never_examined_witness:
  "parseFrameHeader [0x00, 0x00, 0x00, 0x00, 0x00, 0xFF, 0xFB, 0x90, 0x00] 5 = Inr (Some cbr_parsed) \<and>
   scan [0x00, 0x00, 0x00, 0x00, 0x00, 0xFF, 0xFB, 0x90, 0x00] =
     Inr \<lparr>position = 5, frameCount = 0, examined = [0, 1, 2, 3, 4], counted = []\<rparr> \<and>
   int (4 :: nat) < int (length [0x00, 0x00, 0x00, 0x00, 0x00, 0xFF, 0xFB, 0x90, 0x00 :: byte]) - 4 \<and>
   scan_loop [0x00, 0x00, 0x00, 0x00, 0x00, 0xFF, 0xFB, 0x90, 0x00] (initial_state 5) = initial_state 5"
proof -
  let ?b = "[0x00, 0x00, 0x00, 0x00, 0x00, 0xFF, 0xFB, 0x90, 0x00] :: buffer"
  have p: "parseFrameHeader ?b 5 = Inr (Some cbr_parsed)"
    by (rule parse_cbr_header_at) simp_all
  have e: "int (length ?b) - 4 \<le> int (position (initial_state 5))"
    by (simp add: initial_state_def)
  from tail_header_never_examined [of ?b] tail_example_scan e p show ?thesis
    by simp
qed

section \<open>Skipping the ID3v2 tag\<close>

lemma skipId3_plain_tag:
  assumes "10 \<le> length buffer" "buffer ! 0 = 0x49" "buffer ! 1 = 0x44" "buffer ! 2 = 0x33"
  shows "skipId3 buffer =
     Inr (10 + (push_bit 21 (uint (buffer ! 6)) OR push_bit 14 (uint (buffer ! 7)) OR
                push_bit 7 (uint (buffer ! 8)) OR uint (buffer ! 9)))"
proof -
  have "skipId3 buffer = Inr (10 + id3Size (buffer ! 6) (buffer ! 7) (buffer ! 8) (buffer ! 9))"
    using assms by (intro skipId3_tag) simp_all
  then show ?thesis by (simp only: id3Size_unbounded)
qed

lemma counted_after_start:
  assumes "skipId3 buffer = Inr start" "scan buffer = Inr s" "p \<in> set (counted s)"
  shows "start \<le> int p"
proof -
  from scan_final_log_inv [OF assms(2)] obtain st
    where "skipId3 buffer = Inr (int st)" "log_inv buffer st s" by blast
  with assms(1,3) show ?thesis by (auto simp: log_inv_def)
qed

lemma tagged_frame_scan:
  fixes f3 f4 f5 :: byte
  defines "b \<equiv> [0x49, 0x44, 0x33, f3, f4, f5, 0, 0, 0, 0] @ cbr_frame"
  shows "scan b = Inr \<lparr>position = 10, frameCount = 1, examined = [10], counted = [10]\<rparr>"
proof -
  have len: "length b = 427" by (simp add: b_def length_cbr_frame)
  have sk: "skipId3 b = Inr 10"
  proof -
    have "skipId3 b = Inr (10 + id3Size (b ! 6) (b ! 7) (b ! 8) (b ! 9))"
      by (rule skipId3_tag) (simp_all add: len, simp_all add: b_def)
    moreover have "b ! 6 = 0" "b ! 7 = 0" "b ! 8 = 0" "b ! 9 = 0" by (simp_all add: b_def)
    ultimately show ?thesis by (simp add: id3Size_unbounded)
  qed
  let ?s = "initial_state 10"
  have hd: "b ! 10 = 0xFF" "b ! (10 + 1) = 0xFB" "b ! (10 + 2) = 0x90"
    using cbr_frame_head by (simp_all add: b_def nth_append)
  have p: "parseFrameHeader b (position ?s) = Inr (Some cbr_parsed)"
    unfolding initial_state_def scan_state.simps
    by (rule parse_cbr_header_at) (simp_all only: hd, simp add: len)
  have body: "scan_body b ?s = Break (count_frame (note_examined (position ?s) ?s))"
    by (rule scan_body_cbr_last [OF p]) (simp_all add: len initial_state_def)
  have c: "loop_cond b ?s" by (simp add: loop_cond_iff len initial_state_def)
  from c body have "scan_loop b ?s = count_frame (note_examined (position ?s) ?s)"
    by (rule scan_loop_Break)
  with sk show ?thesis
    by (simp add: scan_def initial_state_def count_frame_def note_examined_def)
qed

text \<open>
  Claim C5. If the buffer has at least 10 bytes and starts with the bytes \<open>I\<close>, \<open>D\<close>,
  \<open>3\<close>, the scan starts at offset \<open>10 + ((b6 << 21) | (b7 << 14) | (b8 << 7) | b9)\<close>,
  computed here on unbounded integers. No counted position lies before the start offset.
  A 10-byte tag header whose size bytes encode 0, followed by one valid 417-byte frame,
  gives 1, the one counted position being 10.
\<close>

theorem id3_tag_skipped:
  "(10 \<le> length buffer \<and> buffer ! 0 = 0x49 \<and> buffer ! 1 = 0x44 \<and> buffer ! 2 = 0x33 \<longrightarrow>
      skipId3 buffer =
        Inr (10 + (push_bit 21 (uint (buffer ! 6)) OR push_bit 14 (uint (buffer ! 7)) OR
                   push_bit 7 (uint (buffer ! 8)) OR uint (buffer ! 9))) \<and>
      scan buffer =
        Inr (scan_loop buffer (initial_state
          (10 + nat (push_bit 21 (uint (buffer ! 6)) OR push_bit 14 (uint (buffer ! 7)) OR
                     push_bit 7 (uint (buffer ! 8)) OR uint (buffer ! 9)))))) \<and>
   (\<forall>start s. skipId3 buffer = Inr start \<and> scan buffer = Inr s \<longrightarrow>
      (\<forall>p \<in> set (counted s). start \<le> int p)) \<and>
   countMp3Frames ([0x49, 0x44, 0x33, f3, f4, f5, 0, 0, 0, 0] @
                   [0xFF, 0xFB, 0x90, 0x00] @ replicate 413 0) = Inr 1 \<and>
   scan ([0x49, 0x44, 0x33, f3, f4, f5, 0, 0, 0, 0] @
         [0xFF, 0xFB, 0x90, 0x00] @ replicate 413 0) =
     Inr \<lparr>position = 10, frameCount = 1, examined = [10], counted = [10]\<rparr>"
proof (intro conjI impI allI ballI)
  assume a: "10 \<le> length buffer \<and> buffer ! 0 = 0x49 \<and> buffer ! 1 = 0x44 \<and> buffer ! 2 = 0x33"
  then have sk: "skipId3 buffer =
        Inr (10 + (push_bit 21 (uint (buffer ! 6)) OR push_bit 14 (uint (buffer ! 7)) OR
                   push_bit 7 (uint (buffer ! 8)) OR uint (buffer ! 9)))"
    by (intro skipId3_plain_tag) simp_all
  then show "skipId3 buffer =
        Inr (10 + (push_bit 21 (uint (buffer ! 6)) OR push_bit 14 (uint (buffer ! 7)) OR
                   push_bit 7 (uint (buffer ! 8)) OR uint (buffer ! 9)))" .
  have nn: "0 \<le> push_bit 21 (uint (buffer ! 6)) OR push_bit 14 (uint (buffer ! 7)) OR
                   push_bit 7 (uint (buffer ! 8)) OR uint (buffer ! 9)"
    by simp
  show "scan buffer =
        Inr (scan_loop buffer (initial_state
          (10 + nat (push_bit 21 (uint (buffer ! 6)) OR push_bit 14 (uint (buffer ! 7)) OR
                     push_bit 7 (uint (buffer ! 8)) OR uint (buffer ! 9)))))"
    unfolding scan_def sk using nn by (simp add: nat_add_distrib)
next
  fix start s p
  assume "skipId3 buffer = Inr start \<and> scan buffer = Inr s" "p \<in> set (counted s)"
  then show "start \<le> int p" using counted_after_start [of buffer start s p] by simp
next
  from tagged_frame_scan [of f3 f4 f5]
  show sc: "scan ([0x49, 0x44, 0x33, f3, f4, f5, 0, 0, 0, 0] @
         [0xFF, 0xFB, 0x90, 0x00] @ replicate 413 0) =
     Inr \<lparr>position = 10, frameCount = 1, examined = [10], counted = [10]\<rparr>"
    by (simp only: cbr_frame_def cbr_header_def)
  then show "countMp3Frames ([0x49, 0x44, 0x33, f3, f4, f5, 0, 0, 0, 0] @
                   [0xFF, 0xFB, 0x90, 0x00] @ replicate 413 0) = Inr 1"
    by (simp only: countMp3Frames_def sum.case scan_state.simps)
qed

theorem id3_tag_skipped_witness:
  "skipId3 [0x49, 0x44, 0x33, 0x03, 0x00, 0x00, 0x00, 0x00, 0x02, 0x01, 0xAA] = Inr 267 \<and>
   scan [0x49, 0x44, 0x33, 0x03, 0x00, 0x00, 0x00, 0x00, 0x02, 0x01, 0xAA] =
     Inr (initial_state 267) \<and>
   countMp3Frames ([0x49, 0x44, 0x33, 0x03, 0x00, 0x00, 0, 0, 0, 0] @
                   [0xFF, 0xFB, 0x90, 0x00] @ replicate 413 0) = Inr 1"
proof -
  let ?b = "[0x49, 0x44, 0x33, 0x03, 0x00, 0x00, 0x00, 0x00, 0x02, 0x01, 0xAA] :: buffer"
  have "10 \<le> length ?b \<and> ?b ! 0 = 0x49 \<and> ?b ! 1 = 0x44 \<and> ?b ! 2 = 0x33" by simp
  with id3_tag_skipped [of ?b 3 0 0] show ?thesis
    by (simp add: scan_loop_stop loop_cond_def initial_state_def)
qed

section \<open>The lookahead does not change the count\<close>

lemma scan_body_same_control:
  assumes "same_core s t"
  shows "same_control (scan_body buffer s) (scan_body_nolookahead buffer t)"
proof (cases buffer "position s" rule: parseFrameHeader_cases)
  case invalid
  with assms show ?thesis
    by (simp add: scan_body_def scan_body_nolookahead_def same_control_def same_core_def
        Let_def note_examined_def advance_def)
next
  case (valid h)
  with assms show ?thesis
    by (auto simp: scan_body_def scan_body_nolookahead_def same_control_def same_core_def
        Let_def note_examined_def advance_def count_frame_def parseFrameHeader_no_error
        split: sum.splits)
qed

lemma loop_cond_same_core: "same_core s t \<Longrightarrow> loop_cond buffer s = loop_cond buffer t"
  by (simp add: same_core_def loop_cond_def)

lemma scan_loop_same_core:
  assumes "same_core s t"
  shows "same_core (scan_loop buffer s) (scan_loop_nolookahead buffer t)"
  using assms
proof (induction buffer s arbitrary: t rule: scan_loop.induct)
  case (1 buffer s)
  show ?case
  proof (cases "loop_cond buffer s")
    case False
    with loop_cond_same_core [OF "1.prems"] have "\<not> loop_cond buffer t" by simp
    with False "1.prems" show ?thesis
      by (simp add: scan_loop_stop scan_loop_nolookahead.simps [of buffer t])
  next
    case True
    with loop_cond_same_core [OF "1.prems"] have ct: "loop_cond buffer t" by simp
    from scan_body_same_control [OF "1.prems"]
    have sc: "same_control (scan_body buffer s) (scan_body_nolookahead buffer t)" .
    show ?thesis
    proof (cases "scan_body buffer s")
      case (Continue s')
      with sc obtain t' where t': "scan_body_nolookahead buffer t = Continue t'" "same_core s' t'"
        by (cases "scan_body_nolookahead buffer t") (simp_all add: same_control_def)
      from "1.IH" [OF True Continue t'(2)]
      have "same_core (scan_loop buffer s') (scan_loop_nolookahead buffer t')" .
      with True ct Continue t'(1) show ?thesis
        by (simp add: scan_loop_Continue scan_loop_nolookahead.simps [of buffer t])
    next
      case (Break s')
      with sc obtain t' where t': "scan_body_nolookahead buffer t = Break t'" "same_core s' t'"
        by (cases "scan_body_nolookahead buffer t") (simp_all add: same_control_def)
      with True ct Break show ?thesis
        by (simp add: scan_loop_Break scan_loop_nolookahead.simps [of buffer t])
    qed
  qed
qed

lemma same_core_refl: "same_core s s"
  by (simp add: same_core_def)

text \<open>
  Claim C9. For every buffer, \<open>countMp3Frames\<close> returns what the variant without the
  lookahead verification returns: both branches after the lookahead set the cursor to the
  expected next position, and the lookahead itself never fails.
\<close>

theorem lookahead_is_redundant:
  "countMp3Frames_nolookahead buffer = countMp3Frames buffer"
proof -
  from scan_Inr [of buffer] obtain start where st: "skipId3 buffer = Inr start" by blast
  have "same_core (scan_loop buffer (initial_state (nat start)))
          (scan_loop_nolookahead buffer (initial_state (nat start)))"
    by (rule scan_loop_same_core [OF same_core_refl])
  then show ?thesis
    by (simp add: countMp3Frames_def countMp3Frames_nolookahead_def scan_def
        scan_nolookahead_def st same_core_def)
qed

theorem lookahead_is_redundant_witness:
  "countMp3Frames_nolookahead (cbr_frames 2) = Inr 2 \<and> countMp3Frames (cbr_frames 2) = Inr 2"
  using lookahead_is_redundant [of "cbr_frames 2"] countMp3Frames_cbr_frames [of 2]
  by simp

section \<open>The cursor and the count during a run\<close>

lemma scan_states_stop: "\<not> loop_cond buffer s \<Longrightarrow> scan_states buffer s = [s]"
  by (simp add: scan_states.simps)

lemma scan_states_Continue:
  "loop_cond buffer s \<Longrightarrow> scan_body buffer s = Continue s' \<Longrightarrow>
     scan_states buffer s = s # scan_states buffer s'"
  by (simp add: scan_states.simps)

lemma scan_states_Break:
  "loop_cond buffer s \<Longrightarrow> scan_body buffer s = Break s' \<Longrightarrow> scan_states buffer s = [s, s']"
  by (simp add: scan_states.simps)

lemma scan_states_invariant:
  assumes "I s"
    and "\<And>t. I t \<Longrightarrow> loop_cond buffer t \<Longrightarrow> I (result_state (scan_body buffer t))"
  shows "\<forall>t \<in> set (scan_states buffer s). I t"
  using assms
proof (induction buffer s rule: scan_states.induct)
  case (1 buffer s)
  note step = "1.prems"(2)
  show ?case
  proof (cases "loop_cond buffer s")
    case False
    with "1.prems"(1) show ?thesis by (simp add: scan_states_stop)
  next
    case True
    from step [OF "1.prems"(1) True] have r: "I (result_state (scan_body buffer s))" .
    show ?thesis
    proof (cases "scan_body buffer s")
      case (Continue s')
      with r have "I s'" by (simp add: result_state_def)
      from "1.IH" [OF True Continue this step] have "\<forall>t \<in> set (scan_states buffer s'). I t" by simp
      with True Continue "1.prems"(1) show ?thesis by (simp add: scan_states_Continue)
    next
      case (Break s')
      with r have "I s'" by (simp add: result_state_def)
      with True Break "1.prems"(1) show ?thesis by (simp add: scan_states_Break)
    qed
  qed
qed

lemma last_scan_states: "last (scan_states buffer s) = scan_loop buffer s"
proof (induction buffer s rule: scan_states.induct)
  case (1 buffer s)
  show ?case
  proof (cases "loop_cond buffer s")
    case False
    then show ?thesis by (simp add: scan_states_stop scan_loop_stop)
  next
    case True
    show ?thesis
    proof (cases "scan_body buffer s")
      case (Continue s')
      have "scan_states buffer s' \<noteq> []" by (simp add: scan_states.simps [of buffer s'])
      with "1.IH" [OF True Continue] True Continue show ?thesis
        by (simp add: scan_states_Continue scan_loop_Continue)
    next
      case (Break s')
      with True show ?thesis by (simp add: scan_states_Break scan_loop_Break)
    qed
  qed
qed

lemma scan_body_cursor_bound:
  assumes "loop_cond buffer s" "0 \<le> frameCount s"
  shows "position (result_state (scan_body buffer s)) \<le> length buffer \<and>
         0 \<le> frameCount (result_state (scan_body buffer s))"
proof (cases buffer "position s" rule: parseFrameHeader_cases)
  case invalid
  with assms show ?thesis
    by (simp add: scan_body_invalid result_state_def advance_def note_examined_def loop_cond_iff)
next
  case (valid h)
  with assms show ?thesis
    by (auto simp: scan_body_def Let_def result_state_def advance_def note_examined_def
        count_frame_def loop_cond_iff split: sum.splits option.splits)
qed

lemma run_states_eq:
  "\<exists>start. skipId3 buffer = Inr (int start) \<and>
     run_states buffer = initial_state 0 # scan_states buffer (initial_state start)"
proof -
  from scan_Inr [of buffer] obtain st where "skipId3 buffer = Inr st" "0 \<le> st" by blast
  then show ?thesis by (intro exI [of _ "nat st"]) (simp add: run_states_def)
qed

lemma run_states_invariant:
  assumes "s \<in> set (run_states buffer)"
  shows "0 \<le> frameCount s \<and>
    (position s \<le> length buffer \<or> (skipId3 buffer = Inr (int (position s)) \<and> frameCount s = 0))"
proof -
  from run_states_eq [of buffer] obtain start where st: "skipId3 buffer = Inr (int start)"
    "run_states buffer = initial_state 0 # scan_states buffer (initial_state start)" by blast
  let ?I = "\<lambda>t. 0 \<le> frameCount t \<and>
     (position t \<le> length buffer \<or> (position t = start \<and> frameCount t = 0))"
  have "\<forall>t \<in> set (scan_states buffer (initial_state start)). ?I t"
  proof (rule scan_states_invariant)
    show "?I (initial_state start)" by (simp add: initial_state_def)
  next
    fix t assume "?I t" "loop_cond buffer t"
    then show "?I (result_state (scan_body buffer t))"
      using scan_body_cursor_bound [of buffer t] by simp
  qed
  moreover have "?I (initial_state 0)" by (simp add: initial_state_def)
  ultimately have "?I s" using assms st(2) by auto
  with st(1) show ?thesis by auto
qed

lemma run_states_overshoot:
  assumes "skipId3 buffer = Inr start" "int (length buffer) < start"
  shows "run_states buffer = [initial_state 0, initial_state (nat start)] \<and>
         countMp3Frames buffer = Inr 0"
proof -
  from assms(2) have "\<not> loop_cond buffer (initial_state (nat start))"
    by (simp add: loop_cond_def initial_state_def)
  then show ?thesis
    by (simp add: run_states_def countMp3Frames_def scan_def assms(1) scan_states_stop
        scan_loop_stop initial_state_def)
qed

lemma scan_last_run_state: "scan buffer = Inr (last (run_states buffer))"
proof -
  from scan_Inr [of buffer] obtain st where st: "skipId3 buffer = Inr st"
    "scan buffer = Inr (scan_loop buffer (initial_state (nat st)))" by blast
  have "scan_states buffer (initial_state (nat st)) \<noteq> []"
    by (simp add: scan_states.simps [of buffer "initial_state (nat st)"])
  then show ?thesis by (simp add: run_states_def st last_scan_states)
qed

text \<open>
  Claim C2, as the claim states it, fails: a 10-byte buffer that starts with \<open>ID3\<close> and
  whose size bytes encode 1 puts the cursor at 11, beyond the buffer length of 10.
\<close>

theorem cursor_within_buffer_counterexample:
  "run_states [0x49, 0x44, 0x33, 0x03, 0x00, 0x00, 0x00, 0x00, 0x00, 0x01] =
     [initial_state 0, initial_state 11] \<and>
   \<not> position (run_states [0x49, 0x44, 0x33, 0x03, 0x00, 0x00, 0x00, 0x00, 0x00, 0x01] ! 1)
       \<le> length [0x49, 0x44, 0x33, 0x03, 0x00, 0x00, 0x00, 0x00, 0x00, 0x01 :: byte]"
proof -
  let ?b = "[0x49, 0x44, 0x33, 0x03, 0x00, 0x00, 0x00, 0x00, 0x00, 0x01] :: buffer"
  have "skipId3 ?b = Inr (10 + id3Size (?b ! 6) (?b ! 7) (?b ! 8) (?b ! 9))"
    by (rule skipId3_tag) simp_all
  then have "skipId3 ?b = Inr 11" by (simp add: id3Size_unbounded)
  from run_states_overshoot [OF this] show ?thesis by (simp add: initial_state_def)
qed

text \<open>
  Claim C2, amended. In every state an invocation passes through, the count is at least 0,
  and the cursor does not exceed the buffer length, except that the tag skip sets it to 10
  plus the decoded size without looking at the buffer length: when that offset lies beyond
  the buffer, the cursor stays there, the loop body never runs, and the result is 0.
\<close>

theorem cursor_invariant:
  assumes "s \<in> set (run_states buffer)"
  shows "0 \<le> frameCount s \<and>
    (position s \<le> length buffer \<or>
       (skipId3 buffer = Inr (int (position s)) \<and> frameCount s = 0)) \<and>
    scan buffer = Inr (last (run_states buffer)) \<and>
    (\<forall>start. skipId3 buffer = Inr start \<and> int (length buffer) < start \<longrightarrow>
       run_states buffer = [initial_state 0, initial_state (nat start)] \<and>
       countMp3Frames buffer = Inr 0)"
  using run_states_invariant [OF assms] scan_last_run_state [of buffer]
    run_states_overshoot [of buffer]
  by blast

lemma overshoot_run_states:
  "run_states [0x49, 0x44, 0x33, 0x03, 0x00, 0x00, 0x00, 0x00, 0x00, 0x01] =
     [initial_state 0, initial_state 11] \<and>
   skipId3 [0x49, 0x44, 0x33, 0x03, 0x00, 0x00, 0x00, 0x00, 0x00, 0x01] = Inr 11"
proof -
  let ?b = "[0x49, 0x44, 0x33, 0x03, 0x00, 0x00, 0x00, 0x00, 0x00, 0x01] :: buffer"
  have "skipId3 ?b = Inr (10 + id3Size (?b ! 6) (?b ! 7) (?b ! 8) (?b ! 9))"
    by (rule skipId3_tag) simp_all
  then have sk: "skipId3 ?b = Inr 11" by (simp add: id3Size_unbounded)
  from run_states_overshoot [OF sk] sk show ?thesis by simp
qed

lemma partial_frame_run_states:
  "run_states [0x00, 0xFF, 0xFB, 0x90, 0x00, 0x00, 0x00] =
     [\<lparr>position = 0, frameCount = 0, examined = [], counted = []\<rparr>,
      \<lparr>position = 0, frameCount = 0, examined = [], counted = []\<rparr>,
      \<lparr>position = 1, frameCount = 0, examined = [0], counted = []\<rparr>,
      \<lparr>position = 1, frameCount = 1, examined = [0, 1], counted = [1]\<rparr>]"
  by (simp add: run_states_def skipId3_short scan_states.simps loop_cond_def initial_state_def
      scan_body_def parseFrameHeader_def readByte_def BITRATE_TABLE_def SAMPLE_RATE_TABLE_def
      note_examined_def advance_def count_frame_def)

theorem cursor_invariant_witness:
  "position \<lparr>position = 1, frameCount = 1, examined = [0, 1], counted = [1]\<rparr>
     \<le> length [0x00, 0xFF, 0xFB, 0x90, 0x00, 0x00, 0x00 :: byte] \<and>
   scan [0x00, 0xFF, 0xFB, 0x90, 0x00, 0x00, 0x00] =
     Inr \<lparr>position = 1, frameCount = 1, examined = [0, 1], counted = [1]\<rparr> \<and>
   skipId3 [0x49, 0x44, 0x33, 0x03, 0x00, 0x00, 0x00, 0x00, 0x00, 0x01] = Inr 11 \<and>
   countMp3Frames [0x49, 0x44, 0x33, 0x03, 0x00, 0x00, 0x00, 0x00, 0x00, 0x01] = Inr 0"
proof -
  let ?a = "[0x00, 0xFF, 0xFB, 0x90, 0x00, 0x00, 0x00] :: buffer"
  let ?s = "\<lparr>position = 1, frameCount = 1, examined = [0, 1], counted = [1]\<rparr>"
  let ?b = "[0x49, 0x44, 0x33, 0x03, 0x00, 0x00, 0x00, 0x00, 0x00, 0x01] :: buffer"
  have a: "?s \<in> set (run_states ?a)" by (simp add: partial_frame_run_states)
  have b: "initial_state 11 \<in> set (run_states ?b)" by (simp add: overshoot_run_states)
  have sk: "skipId3 ?b = Inr 11 \<and> int (length ?b) < 11" by (simp add: overshoot_run_states)
  from cursor_invariant [OF a] cursor_invariant [OF b] sk show ?thesis
    by (simp add: partial_frame_run_states overshoot_run_states)
qed

end
